theory Spec2Isabelle
  imports Complex_Main
begin

section \<open>Data model\<close>

text \<open>
  The pipeline works on pandas DataFrames with the six columns of the transaction file.
  A DataFrame is modelled by the list of its rows, in row order. Every cell may be null
  (NaN / None / NaT), so every field is an option; the timestamp cell is either null, a
  text that has not been converted yet, or an instant (datetime64[ns], nanoseconds since
  the epoch, taken as an unbounded integer).

  Strings are lists of \<^typ>\<open>char\<close>, read as the code points 0 to 255; amounts are real
  numbers (the source holds them in binary floating point, and compares them exactly).
  The merchant column is a column of texts and nulls, as \<open>pd.read_csv\<close> delivers it
  for the transaction file.
\<close>

datatype ts_cell = TsNull | TsText string | TsTime int

record transaction =
  transaction_id :: "string option"
  timestamp :: ts_cell
  amount :: "real option"
  merchant :: "string option"
  user_id :: "string option"
  is_fraud :: "bool option"

text \<open>
  The exceptions the pipeline can raise. Every method catches the exception, logs it and
  raises it again, so an exception of a library call is the result of the method.
\<close>

datatype error =
    DateParseError string   \<comment> \<open>\<open>pd.to_datetime\<close> on a text it cannot parse\<close>
  | NotDatetimeError        \<comment> \<open>timestamp arithmetic on a column that is not datetime\<close>
  | KeyError string         \<comment> \<open>a column that the frame does not have\<close>
  | SourceReadError         \<comment> \<open>\<open>pd.read_csv\<close> failed\<close>
  | SinkWriteError          \<comment> \<open>the database write failed\<close>

section \<open>Character classes and string methods\<close>

text \<open>
  Python's \<open>str.isspace\<close> and the regular expression classes \<open>\s\<close> and \<open>\w\<close> on the code
  points 0 to 255.
\<close>

definition is_space :: "char \<Rightarrow> bool" where
  "is_space c =
     (let n = (of_char c :: nat)
      in (9 \<le> n \<and> n \<le> 13) \<or> (28 \<le> n \<and> n \<le> 32) \<or> n = 133 \<or> n = 160)"

definition is_word :: "char \<Rightarrow> bool" where
  "is_word c =
     (let n = (of_char c :: nat)
      in (48 \<le> n \<and> n \<le> 57) \<or> (65 \<le> n \<and> n \<le> 90) \<or> n = 95 \<or> (97 \<le> n \<and> n \<le> 122)
         \<or> n = 170 \<or> n = 178 \<or> n = 179 \<or> n = 181 \<or> n = 185 \<or> n = 186
         \<or> (188 \<le> n \<and> n \<le> 190) \<or> (192 \<le> n \<and> n \<le> 214) \<or> (216 \<le> n \<and> n \<le> 246)
         \<or> 248 \<le> n)"

text \<open>\<open>s.strip()\<close>: white space is removed at both ends.\<close>

definition str_strip :: "string \<Rightarrow> string" where
  "str_strip s = rev (dropWhile is_space (rev (dropWhile is_space s)))"

text \<open>\<open>re.sub(r'[^\w\s]', '', s)\<close>: every character that is neither word nor space goes.\<close>

definition str_replace_special :: "string \<Rightarrow> string" where
  "str_replace_special s = filter (\<lambda>c. is_word c \<or> is_space c) s"

section \<open>The Cleaner: \<open>clean_data\<close>\<close>

text \<open>
  \<open>df.drop_duplicates(subset=['transaction_id'])\<close> keeps the first row of every
  identifier, in row order; null identifiers are equal to each other.
\<close>

fun drop_duplicates_seen :: "string option list \<Rightarrow> transaction list \<Rightarrow> transaction list" where
  "drop_duplicates_seen seen [] = []"
| "drop_duplicates_seen seen (r # rs) =
     (if transaction_id r \<in> set seen then drop_duplicates_seen seen rs
      else r # drop_duplicates_seen (transaction_id r # seen) rs)"

definition drop_duplicates :: "transaction list \<Rightarrow> transaction list" where
  "drop_duplicates df = drop_duplicates_seen [] df"

text \<open>
  \<open>pd.to_datetime(column)\<close> with the default \<open>errors='raise'\<close>. The parser of one text
  belongs to pandas and is a parameter \<open>parse\<close> (\<open>None\<close>: the text is not a date in
  this column); a null cell becomes NaT, an instant stays, and the first text that does
  not parse raises.
\<close>

fun to_datetime :: "(string \<Rightarrow> int option) \<Rightarrow> ts_cell list \<Rightarrow> error + ts_cell list" where
  "to_datetime parse [] = Inr []"
| "to_datetime parse (c # cs) =
     (case (case c of
              TsNull \<Rightarrow> Inr TsNull
            | TsTime t \<Rightarrow> Inr (TsTime t)
            | TsText s \<Rightarrow> (case parse s of None \<Rightarrow> Inl (DateParseError s)
                                            | Some t \<Rightarrow> Inr (TsTime t))) of
        Inl e \<Rightarrow> Inl e
      | Inr d \<Rightarrow> (case to_datetime parse cs of Inl e \<Rightarrow> Inl e | Inr ds \<Rightarrow> Inr (d # ds)))"

text \<open>\<open>df['timestamp'] = column\<close>: the column is stored row by row.\<close>

definition set_timestamp :: "transaction list \<Rightarrow> ts_cell list \<Rightarrow> transaction list" where
  "set_timestamp df col = map (\<lambda>(r, c). r\<lparr>timestamp := c\<rparr>) (zip df col)"

text \<open>\<open>df.dropna()\<close>: a row with a null in any column goes.\<close>

definition has_null :: "transaction \<Rightarrow> bool" where
  "has_null r \<longleftrightarrow>
     transaction_id r = None \<or> timestamp r = TsNull \<or> amount r = None
     \<or> merchant r = None \<or> user_id r = None \<or> is_fraud r = None"

definition dropna :: "transaction list \<Rightarrow> transaction list" where
  "dropna df = filter (\<lambda>r. \<not> has_null r) df"

text \<open>The two \<open>.str\<close> methods on the merchant column; a null cell stays null.\<close>

definition merchant_strip :: "transaction list \<Rightarrow> transaction list" where
  "merchant_strip df = map (\<lambda>r. r\<lparr>merchant := map_option str_strip (merchant r)\<rparr>) df"

definition merchant_replace :: "transaction list \<Rightarrow> transaction list" where
  "merchant_replace df =
     map (\<lambda>r. r\<lparr>merchant := map_option str_replace_special (merchant r)\<rparr>) df"

definition clean_data :: "(string \<Rightarrow> int option) \<Rightarrow> transaction list \<Rightarrow> error + transaction list" where
  "clean_data parse df =
     (let df_clean = drop_duplicates df
      in case to_datetime parse (map timestamp df_clean) of
           Inl e \<Rightarrow> Inl e
         | Inr col \<Rightarrow>
             (let df_clean = set_timestamp df_clean col;
                  df_clean = dropna df_clean;
                  df_clean = merchant_strip df_clean;
                  df_clean = merchant_replace df_clean
              in Inr df_clean))"

section \<open>The Rule Engine: \<open>apply_rule_based_detection\<close>\<close>

text \<open>
  The engine adds columns to a frame, so a frame is the rows of the six columns together
  with the three columns the engine knows, each present or absent. Frames are objects:
  the heap is the list of the frames allocated so far and a reference is an index into
  it. A method that returns a new DataFrame allocates; an assignment to a column changes
  the frame in place. A reference that the program holds is allocated: it is below the
  length of the heap.
\<close>

record frame =
  rows :: "transaction list"
  prev_transaction_time :: "ts_cell list option"
  rule_based_fraud_flag :: "bool list option"
  fraud_score :: "int list option"

type_synonym heap = "frame list"

definition new_frame :: "transaction list \<Rightarrow> frame" where
  "new_frame df =
     \<lparr>rows = df, prev_transaction_time = None, rule_based_fraud_flag = None, fraud_score = None\<rparr>"

definition alloc :: "heap \<Rightarrow> frame \<Rightarrow> heap \<times> nat" where
  "alloc h f = (h @ [f], length h)"

text \<open>\<open>df.copy()\<close>: a new frame with the same contents.\<close>

definition copy :: "heap \<Rightarrow> nat \<Rightarrow> heap \<times> nat" where
  "copy h p = alloc h (h ! p)"

text \<open>\<open>df.drop('prev_transaction_time', axis=1)\<close>: a new frame without the column.\<close>

definition drop_prev_transaction_time :: "heap \<Rightarrow> nat \<Rightarrow> heap \<times> nat" where
  "drop_prev_transaction_time h p = alloc h ((h ! p)\<lparr>prev_transaction_time := None\<rparr>)"

text \<open>Rule 1: \<open>df['amount'] > 1000\<close>; a comparison with NaN is false.\<close>

definition amount_gt :: "real \<Rightarrow> transaction list \<Rightarrow> bool list" where
  "amount_gt k df = map (\<lambda>r. case amount r of None \<Rightarrow> False | Some a \<Rightarrow> a > k) df"

text \<open>
  Rule 2: \<open>df['merchant'].str.contains('|'.join(keywords), case=False, na=False)\<close>.
  The pattern is an alternation of literal words, searched at every position of the
  text with \<open>re.IGNORECASE\<close>: a character of the pattern matches a character of the text
  when their lower-case forms are equal. \<open>lower c\<close> is the code point of the lower-case
  form of \<open>c\<close>. The keywords hold no character that is special in a regular
  expression, and among the code points 0 to 255 only the two cases of a letter have
  the same lower-case form.
\<close>

definition lower :: "char \<Rightarrow> nat" where
  "lower c =
     (let n = (of_char c :: nat)
      in if (65 \<le> n \<and> n \<le> 90) \<or> (192 \<le> n \<and> n \<le> 214) \<or> (216 \<le> n \<and> n \<le> 222)
         then n + 32 else n)"

fun match_here :: "string \<Rightarrow> string \<Rightarrow> bool" where
  "match_here [] s = True"
| "match_here (p # ps) [] = False"
| "match_here (p # ps) (c # cs) = (lower p = lower c \<and> match_here ps cs)"

fun re_search :: "string list \<Rightarrow> string \<Rightarrow> bool" where
  "re_search alts [] = list_ex (\<lambda>a. match_here a []) alts"
| "re_search alts (c # cs) = (list_ex (\<lambda>a. match_here a (c # cs)) alts \<or> re_search alts cs)"

definition high_risk_merchants :: "string list" where
  "high_risk_merchants = [''Casino'', ''Gaming'', ''Crypto'', ''Betting'']"

definition str_contains :: "string list \<Rightarrow> transaction list \<Rightarrow> bool list" where
  "str_contains alts df =
     map (\<lambda>r. case merchant r of None \<Rightarrow> False | Some m \<Rightarrow> re_search alts m) df"

text \<open>
  Rule 3: \<open>df.groupby('user_id')['timestamp'].shift(1)\<close>. Within each group the rows keep
  their row order and every row receives the timestamp of the row before it in its
  group; the first row of a group, and a row whose \<open>user_id\<close> is null, receive NaT.
  \<open>latest\<close> holds, for every user seen so far, the timestamp of that user's latest row.
\<close>

fun groupby_shift :: "(string \<rightharpoonup> ts_cell) \<Rightarrow> transaction list \<Rightarrow> ts_cell list" where
  "groupby_shift latest [] = []"
| "groupby_shift latest (r # rs) =
     (case user_id r of
        None \<Rightarrow> TsNull # groupby_shift latest rs
      | Some u \<Rightarrow>
          (case latest u of None \<Rightarrow> TsNull | Some t \<Rightarrow> t)
            # groupby_shift (latest(u \<mapsto> timestamp r)) rs)"

text \<open>
  \<open>(a - b).dt.total_seconds()\<close> on two timestamp columns: the difference in nanoseconds
  divided by \<open>10^9\<close>, NaN where either side is NaT. The subtraction raises when the
  column still holds text. The quotient is taken exactly; the source rounds it to binary
  floating point, which is monotone and keeps a quotient of whole nanoseconds on its
  side of the threshold 60.
\<close>

fun sub_ts :: "ts_cell \<Rightarrow> ts_cell \<Rightarrow> int option" where
  "sub_ts (TsTime a) (TsTime b) = Some (a - b)"
| "sub_ts a b = None"

definition is_text :: "ts_cell \<Rightarrow> bool" where
  "is_text c = (case c of TsText s \<Rightarrow> True | _ \<Rightarrow> False)"

definition total_seconds_diff :: "ts_cell list \<Rightarrow> ts_cell list \<Rightarrow> error + real option list" where
  "total_seconds_diff xs ys =
     (if list_ex is_text xs then Inl NotDatetimeError
      else Inr (map (\<lambda>(a, b). map_option (\<lambda>d. real_of_int d / 1000000000) (sub_ts a b))
                  (zip xs ys)))"

text \<open>\<open>time_diff < 60\<close>; a comparison with NaN is false.\<close>

definition lt :: "real \<Rightarrow> real option list \<Rightarrow> bool list" where
  "lt k col = map (\<lambda>d. case d of None \<Rightarrow> False | Some x \<Rightarrow> x < k) col"

text \<open>\<open>a | b | c\<close> and \<open>a.astype(int) + b.astype(int) + c.astype(int)\<close> on boolean columns.\<close>

definition or3 :: "bool list \<Rightarrow> bool list \<Rightarrow> bool list \<Rightarrow> bool list" where
  "or3 xs ys zs = map (\<lambda>(a, b, c). a \<or> b \<or> c) (zip xs (zip ys zs))"

definition astype_int :: "bool \<Rightarrow> int" where
  "astype_int b = (if b then 1 else 0)"

definition add3 :: "bool list \<Rightarrow> bool list \<Rightarrow> bool list \<Rightarrow> int list" where
  "add3 xs ys zs =
     map (\<lambda>(a, b, c). astype_int a + astype_int b + astype_int c) (zip xs (zip ys zs))"

text \<open>The three rule columns, as the method names them.\<close>

definition high_amount_flag :: "transaction list \<Rightarrow> bool list" where
  "high_amount_flag df = amount_gt 1000 df"

definition merchant_risk_flag :: "transaction list \<Rightarrow> bool list" where
  "merchant_risk_flag df = str_contains high_risk_merchants df"

definition rapid_transactions_flag :: "transaction list \<Rightarrow> ts_cell list \<Rightarrow> error + bool list" where
  "rapid_transactions_flag df prev =
     (case total_seconds_diff (map timestamp df) prev of
        Inl e \<Rightarrow> Inl e
      | Inr time_diff \<Rightarrow> Inr (lt 60 time_diff))"

definition apply_rule_based_detection :: "heap \<Rightarrow> nat \<Rightarrow> error + (heap \<times> nat)" where
  "apply_rule_based_detection h df =
     (let (h, df_processed) = copy h df;
          high_amount = high_amount_flag (rows (h ! df_processed));
          merchant_risk = merchant_risk_flag (rows (h ! df_processed));
          h = h[df_processed := (h ! df_processed)
                 \<lparr>prev_transaction_time :=
                    Some (groupby_shift Map.empty (rows (h ! df_processed)))\<rparr>]
      in case prev_transaction_time (h ! df_processed) of
           None \<Rightarrow> Inl (KeyError ''prev_transaction_time'')
         | Some prev \<Rightarrow>
             (case rapid_transactions_flag (rows (h ! df_processed)) prev of
                Inl e \<Rightarrow> Inl e
              | Inr rapid \<Rightarrow>
                  (let h = h[df_processed := (h ! df_processed)
                              \<lparr>rule_based_fraud_flag :=
                                 Some (or3 high_amount merchant_risk rapid)\<rparr>];
                       h = h[df_processed := (h ! df_processed)
                              \<lparr>fraud_score :=
                                 Some (add3 high_amount merchant_risk rapid)\<rparr>]
                   in Inr (drop_prev_transaction_time h df_processed))))"

section \<open>The pipeline and its summary\<close>

record summary =
  total_records :: int
  original_fraud_flags :: int
  rule_based_flags :: int
  high_risk_transactions :: int

text \<open>\<open>column.sum()\<close> on a boolean column counts the true cells; nulls are skipped.\<close>

definition sum_bool :: "bool list \<Rightarrow> int" where
  "sum_bool col = sum_list (map astype_int col)"

definition sum_bool_opt :: "bool option list \<Rightarrow> int" where
  "sum_bool_opt col = sum_list (map (\<lambda>b. case b of None \<Rightarrow> 0 | Some v \<Rightarrow> astype_int v) col)"

text \<open>The summary dictionary that \<open>run_pipeline\<close> builds from the scored frame.\<close>

definition summary_of :: "frame \<Rightarrow> error + summary" where
  "summary_of f =
     (case rule_based_fraud_flag f of
        None \<Rightarrow> Inl (KeyError ''rule_based_fraud_flag'')
      | Some flags \<Rightarrow>
          (case fraud_score f of
             None \<Rightarrow> Inl (KeyError ''fraud_score'')
           | Some scores \<Rightarrow>
               Inr \<lparr>total_records = int (length (rows f)),
                    original_fraud_flags = sum_bool_opt (map is_fraud (rows f)),
                    rule_based_flags = sum_bool flags,
                    high_risk_transactions = sum_bool (map (\<lambda>s. s \<ge> 2) scores)\<rparr>))"

text \<open>
  \<open>run_pipeline\<close>: the result of \<open>ingest_data\<close> (the frame read, or the exception) and the
  database write (\<open>None\<close> when it succeeds) are parameters.
\<close>

definition run_pipeline ::
  "(string \<Rightarrow> int option) \<Rightarrow> error + transaction list \<Rightarrow> (frame \<Rightarrow> error option)
     \<Rightarrow> error + summary" where
  "run_pipeline parse ingest_data store_in_database =
     (case ingest_data of
        Inl e \<Rightarrow> Inl e
      | Inr df \<Rightarrow>
          (case clean_data parse df of
             Inl e \<Rightarrow> Inl e
           | Inr df_clean \<Rightarrow>
               (case apply_rule_based_detection [new_frame df_clean] 0 of
                  Inl e \<Rightarrow> Inl e
                | Inr (h, df_processed) \<Rightarrow>
                    (case store_in_database (h ! df_processed) of
                       Some e \<Rightarrow> Inl e
                     | None \<Rightarrow> summary_of (h ! df_processed)))))"

section \<open>The specification's reading of rule 3\<close>

text \<open>
  The specification describes rule 3 over each user's rows sorted by timestamp ascending,
  ties in input order: the predecessor of a row is the row just before it in that sorted
  sequence. \<open>sort_key\<close> is a stable insertion sort. The Rule Engine's input holds instants
  only; \<open>instant\<close> places any other cell at 0.
\<close>

fun instant :: "ts_cell \<Rightarrow> int" where
  "instant (TsTime t) = t"
| "instant c = 0"

definition spec_user_rows_sorted :: "transaction list \<Rightarrow> string \<Rightarrow> nat list" where
  "spec_user_rows_sorted df u =
     sort_key (\<lambda>j. instant (timestamp (df ! j)))
       (filter (\<lambda>j. user_id (df ! j) = Some u) [0..<length df])"

definition spec_sorted_predecessor :: "transaction list \<Rightarrow> nat \<Rightarrow> nat option" where
  "spec_sorted_predecessor df i =
     (case user_id (df ! i) of
        None \<Rightarrow> None
      | Some u \<Rightarrow>
          (case takeWhile (\<lambda>j. j \<noteq> i) (spec_user_rows_sorted df u) of
             [] \<Rightarrow> None
           | js \<Rightarrow> Some (last js)))"

definition spec_rapid :: "transaction list \<Rightarrow> nat \<Rightarrow> bool" where
  "spec_rapid df i =
     (case spec_sorted_predecessor df i of
        None \<Rightarrow> False
      | Some j \<Rightarrow>
          (case sub_ts (timestamp (df ! i)) (timestamp (df ! j)) of
             None \<Rightarrow> False
           | Some d \<Rightarrow> real_of_int d / 1000000000 < 60))"

section \<open>The cleaned form of a row\<close>

text \<open>
  What the Cleaner makes of a row that it keeps: the timestamp converted, the merchant
  stripped and then freed of special characters. \<open>parsed\<close> is the cell that a successful
  \<open>to_datetime\<close> leaves.
\<close>

definition parsed :: "(string \<Rightarrow> int option) \<Rightarrow> ts_cell \<Rightarrow> ts_cell" where
  "parsed parse c =
     (case c of
        TsText s \<Rightarrow> (case parse s of None \<Rightarrow> TsNull | Some t \<Rightarrow> TsTime t)
      | _ \<Rightarrow> c)"

definition cleaned :: "(string \<Rightarrow> int option) \<Rightarrow> transaction \<Rightarrow> transaction" where
  "cleaned parse r =
     r\<lparr>timestamp := parsed parse (timestamp r),
       merchant := map_option (\<lambda>m. str_replace_special (str_strip m)) (merchant r)\<rparr>"

text \<open>Row \<open>i\<close> is the first row of the frame with its \<open>transaction_id\<close>.\<close>

definition first_occurrence :: "transaction list \<Rightarrow> nat \<Rightarrow> bool" where
  "first_occurrence df i \<longleftrightarrow> (\<forall>j<i. transaction_id (df ! j) \<noteq> transaction_id (df ! i))"

text \<open>
  The invariants of the Cleaner's output: identifiers are unique, no cell is null, every
  timestamp is an instant and every merchant consists of word and space characters.
\<close>

definition canonical :: "transaction list \<Rightarrow> bool" where
  "canonical xs \<longleftrightarrow>
     distinct (map transaction_id xs)
     \<and> (\<forall>r\<in>set xs. \<not> has_null r \<and> (\<exists>t. timestamp r = TsTime t)
           \<and> (\<forall>m. merchant r = Some m \<longrightarrow> (\<forall>c\<in>set m. is_word c \<or> is_space c)))"

section \<open>Example frames\<close>

text \<open>
  The frames on which the theorems below are evaluated. \<open>sample_to_datetime\<close> is an
  excerpt of the date parser, enough for the examples: two ISO timestamps with their
  instants in nanoseconds, every other text is not a date.
\<close>

definition sample_to_datetime :: "string \<Rightarrow> int option" where
  "sample_to_datetime s =
     (if s = ''2024-01-01 00:00:00'' then Some 1704067200000000000
      else if s = ''2024-01-01 00:00:30'' then Some 1704067230000000000
      else None)"

definition store_succeeds :: "frame \<Rightarrow> error option" where
  "store_succeeds f = None"

text \<open>A row without nulls.\<close>

definition txn :: "string \<Rightarrow> ts_cell \<Rightarrow> real \<Rightarrow> string \<Rightarrow> string \<Rightarrow> bool \<Rightarrow> transaction" where
  "txn i t a m u f =
     \<lparr>transaction_id = Some i, timestamp = t, amount = Some a, merchant = Some m,
      user_id = Some u, is_fraud = Some f\<rparr>"

text \<open>
  The end-to-end scenario of the specification: record A twice, then record B of the same
  user thirty seconds later; the frame after cleaning; the heap after scoring it.
\<close>

definition example_batch :: "transaction list" where
  "example_batch =
     [txn ''A'' (TsText ''2024-01-01 00:00:00'') 1500 ''Casino Royale'' ''U1'' True,
      txn ''A'' (TsText ''2024-01-01 00:00:00'') 1500 ''Casino Royale'' ''U1'' True,
      txn ''B'' (TsText ''2024-01-01 00:00:30'') 5 ''Coffee Shop'' ''U1'' False]"

definition example_clean :: "transaction list" where
  "example_clean =
     [txn ''A'' (TsTime 1704067200000000000) 1500 ''Casino Royale'' ''U1'' True,
      txn ''B'' (TsTime 1704067230000000000) 5 ''Coffee Shop'' ''U1'' False]"

definition example_heap :: heap where
  "example_heap =
     [new_frame example_clean,
      \<lparr>rows = example_clean,
       prev_transaction_time = Some [TsNull, TsTime 1704067200000000000],
       rule_based_fraud_flag = Some [True, True], fraud_score = Some [2, 1]\<rparr>,
      \<lparr>rows = example_clean, prev_transaction_time = None,
       rule_based_fraud_flag = Some [True, True], fraud_score = Some [2, 1]\<rparr>]"

definition example_summary :: summary where
  "example_summary =
     \<lparr>total_records = 2, original_fraud_flags = 1, rule_based_flags = 2,
      high_risk_transactions = 1\<rparr>"

text \<open>One user's rows out of timestamp order: 100 s, 0 s, 130 s.\<close>

definition unsorted_rows :: "transaction list" where
  "unsorted_rows =
     [txn ''A'' (TsTime 100000000000) 5 ''Coffee Shop'' ''U1'' False,
      txn ''B'' (TsTime 0) 5 ''Coffee Shop'' ''U1'' False,
      txn ''C'' (TsTime 130000000000) 5 ''Coffee Shop'' ''U1'' False]"


text \<open>A merchant with a special character after a space, and its two cleanings.\<close>

definition punctuated_batch :: "transaction list" where
  "punctuated_batch = [txn ''A'' (TsText ''2024-01-01 00:00:00'') 5 ''Coffee Shop #'' ''U1'' False]"

definition punctuated_once :: "transaction list" where
  "punctuated_once = [txn ''A'' (TsTime 1704067200000000000) 5 ''Coffee Shop '' ''U1'' False]"

definition punctuated_twice :: "transaction list" where
  "punctuated_twice = [txn ''A'' (TsTime 1704067200000000000) 5 ''Coffee Shop'' ''U1'' False]"

text \<open>Amounts at the threshold of rule 1, and the merchants of the rule 2 examples.\<close>

definition boundary_rows :: "transaction list" where
  "boundary_rows =
     [txn ''A'' (TsTime 0) 1000 ''Coffee Shop'' ''U1'' False,
      txn ''B'' (TsTime 0) (100001 / 100) ''Coffee Shop'' ''U2'' False]"




section \<open>Auxiliary facts\<close>

subsection \<open>Columns of the Rule Engine\<close>

lemma length_groupby_shift: "length (groupby_shift m rs) = length rs"
  by (induction rs arbitrary: m) (auto split: option.splits)

lemma total_seconds_diff_Inr:
  assumes "total_seconds_diff xs ys = Inr td" and "length ys = length xs"
  shows "length td = length xs"
    and "\<not> list_ex is_text xs"
    and "\<And>i. i < length xs \<Longrightarrow> td ! i = map_option (\<lambda>d. real_of_int d / 1000000000) (sub_ts (xs ! i) (ys ! i))"
  using assms by (auto simp: total_seconds_diff_def split: if_splits)

lemma rapid_transactions_flag_Inr:
  assumes "rapid_transactions_flag df prev = Inr rapid" and "length prev = length df"
  shows "length rapid = length df"
    and "\<And>i. i < length df \<Longrightarrow>
           rapid ! i = (case sub_ts (timestamp (df ! i)) (prev ! i) of
                          None \<Rightarrow> False | Some d \<Rightarrow> real_of_int d / 1000000000 < 60)"
proof -
  from assms(1) obtain td where td: "total_seconds_diff (map timestamp df) prev = Inr td"
    and r: "rapid = lt 60 td"
    by (auto simp: rapid_transactions_flag_def split: sum.splits)
  from total_seconds_diff_Inr[OF td] assms(2)
  have l: "length td = length df"
    and v: "\<And>i. i < length df \<Longrightarrow> td ! i = map_option (\<lambda>d. real_of_int d / 1000000000) (sub_ts (timestamp (df ! i)) (prev ! i))"
    by auto
  show "length rapid = length df" using l r by (simp add: lt_def)
  fix i assume "i < length df"
  then show "rapid ! i = (case sub_ts (timestamp (df ! i)) (prev ! i) of
                          None \<Rightarrow> False | Some d \<Rightarrow> real_of_int d / 1000000000 < 60)"
    using l r v[of i] by (auto simp: lt_def split: option.splits)
qed

lemma apply_rule_based_detection_Inr:
  assumes "apply_rule_based_detection h df = Inr (h', out)"
  obtains rapid where
    "rapid_transactions_flag (rows (h ! df)) (groupby_shift Map.empty (rows (h ! df))) = Inr rapid"
    "out = Suc (length h)"
    "h' = h @ [(h ! df)\<lparr>prev_transaction_time := Some (groupby_shift Map.empty (rows (h ! df))),
                 rule_based_fraud_flag := Some (or3 (high_amount_flag (rows (h ! df))) (merchant_risk_flag (rows (h ! df))) rapid),
                 fraud_score := Some (add3 (high_amount_flag (rows (h ! df))) (merchant_risk_flag (rows (h ! df))) rapid)\<rparr>,
               \<lparr>rows = rows (h ! df), prev_transaction_time = None,
                 rule_based_fraud_flag = Some (or3 (high_amount_flag (rows (h ! df))) (merchant_risk_flag (rows (h ! df))) rapid),
                 fraud_score = Some (add3 (high_amount_flag (rows (h ! df))) (merchant_risk_flag (rows (h ! df))) rapid)\<rparr>]"
  using assms
  by (auto simp: apply_rule_based_detection_def copy_def alloc_def drop_prev_transaction_time_def
      Let_def nth_append split: sum.splits)

subsection \<open>The row before a row in its group\<close>

lemma filter_upt_Suc:
  "filter P [0..<Suc n] = (if P 0 then [0] else []) @ map Suc (filter (\<lambda>j. P (Suc j)) [0..<n])"
proof -
  have "[0..<Suc n] = 0 # map Suc [0..<n]"
    by (simp add: upt_conv_Cons map_Suc_upt del: upt_Suc)
  then show ?thesis
    by (simp add: filter_map comp_def del: upt_Suc)
qed

lemma groupby_shift_nth:
  "i < length rs \<Longrightarrow>
   groupby_shift m rs ! i =
     (case user_id (rs ! i) of
        None \<Rightarrow> TsNull
      | Some u \<Rightarrow>
          (case filter (\<lambda>j. user_id (rs ! j) = Some u) [0..<i] of
             [] \<Rightarrow> (case m u of None \<Rightarrow> TsNull | Some t \<Rightarrow> t)
           | js \<Rightarrow> timestamp (rs ! last js)))"
proof (induction rs arbitrary: m i)
  case Nil
  then show ?case by simp
next
  case (Cons r rs)
  show ?case
  proof (cases i)
    case 0
    then show ?thesis by (simp split: option.splits)
  next
    case (Suc k)
    with Cons.prems have k: "k < length rs" by simp
    show ?thesis
    proof (cases "user_id (rs ! k)")
      case None
      then show ?thesis using Suc k Cons.IH[OF k] by (simp split: option.splits)
    next
      case (Some u)
      let ?f = "filter (\<lambda>j. user_id (rs ! j) = Some u) [0..<k]"
      have F: "filter (\<lambda>j. user_id ((r # rs) ! j) = Some u) [0..<Suc k] =
                 (if user_id r = Some u then [0] else []) @ map Suc ?f"
        by (subst filter_upt_Suc) simp
      show ?thesis
      proof (cases "?f = []")
        case True
        then show ?thesis using Suc k Some F Cons.IH[OF k]
          by (auto simp del: upt_Suc split: option.splits)
      next
        case False
        then obtain a as where as: "?f = a # as" by (cases ?f) auto
        have "last (map Suc ?f) = Suc (last ?f)" using False by (simp add: last_map)
        then show ?thesis using Suc k Some F Cons.IH[OF k] as
          by (auto simp del: upt_Suc split: option.splits)
      qed
    qed
  qed
qed

lemma last_filter_upt:
  assumes "filter P [0..<i] \<noteq> []"
  shows "last (filter P [0..<i]) < i \<and> P (last (filter P [0..<i]))
         \<and> (\<forall>k. last (filter P [0..<i]) < k \<and> k < i \<longrightarrow> \<not> P k)"
  using assms
proof (induction i)
  case 0
  then show ?case by simp
next
  case (Suc i)
  show ?case
  proof (cases "P i")
    case True
    then have l: "last (filter P [0..<Suc i]) = i" by simp
    show ?thesis
      unfolding l
    proof (intro conjI allI impI)
      show "i < Suc i" by simp
      show "P i" by (rule True)
    next
      fix k assume "i < k \<and> k < Suc i"
      then have False by linarith
      then show "\<not> P k" ..
    qed
  next
    case False
    with Suc.prems have ne: "filter P [0..<i] \<noteq> []" by simp
    from False have eq: "filter P [0..<Suc i] = filter P [0..<i]" by simp
    note IH = Suc.IH[OF ne]
    show ?thesis
      unfolding eq
    proof (intro conjI allI impI)
      show "last (filter P [0..<i]) < Suc i" using IH by linarith
      show "P (last (filter P [0..<i]))" using IH by blast
    next
      fix k assume k: "last (filter P [0..<i]) < k \<and> k < Suc i"
      show "\<not> P k"
      proof (cases "k = i")
        case True
        with False show ?thesis by blast
      next
        case ki: False
        with k have "k < i" by linarith
        with k IH show ?thesis by blast
      qed
    qed
  qed
qed

lemma last_filter_upt_unique:
  assumes "j < i" and "P j" and "\<forall>k. j < k \<and> k < i \<longrightarrow> \<not> P k"
  shows "filter P [0..<i] \<noteq> [] \<and> last (filter P [0..<i]) = j"
proof -
  from assms(1,2) have "j \<in> set (filter P [0..<i])" by simp
  then have ne: "filter P [0..<i] \<noteq> []" by (metis empty_iff list.set(1))
  let ?l = "last (filter P [0..<i])"
  note L = last_filter_upt[OF ne]
  have "\<not> ?l < j" using L assms(1,2) by (meson less_trans)
  moreover have "\<not> j < ?l" using L assms(3) by blast
  ultimately have "?l = j" by linarith
  with ne show ?thesis by simp
qed

lemma sub_ts_Some_iff:
  "sub_ts x y = Some d \<longleftrightarrow> (\<exists>a b. x = TsTime a \<and> y = TsTime b \<and> d = a - b)"
  by (cases x; cases y) auto


lemma rapid_nth:
  assumes "rapid_transactions_flag df (groupby_shift Map.empty df) = Inr rapid" and "i < length df"
  shows "rapid ! i =
     (case user_id (df ! i) of
        None \<Rightarrow> False
      | Some u \<Rightarrow>
          (case filter (\<lambda>j. user_id (df ! j) = Some u) [0..<i] of
             [] \<Rightarrow> False
           | js \<Rightarrow> (case sub_ts (timestamp (df ! i)) (timestamp (df ! last js)) of
                      None \<Rightarrow> False
                    | Some d \<Rightarrow> real_of_int d / 1000000000 < 60)))"
proof -
  have "rapid ! i = (case sub_ts (timestamp (df ! i)) (groupby_shift Map.empty df ! i) of
                          None \<Rightarrow> False | Some d \<Rightarrow> real_of_int d / 1000000000 < 60)"
    using rapid_transactions_flag_Inr(2)[OF assms(1) _ assms(2)] by (simp add: length_groupby_shift)
  moreover have "sub_ts x TsNull = None" for x by (cases x) simp_all
  ultimately show ?thesis
    by (simp add: groupby_shift_nth[OF assms(2)] split: option.splits list.splits)
qed

lemma spec_user_rows_sorted_id:
  assumes "sorted (map (\<lambda>r. instant (timestamp r)) df)"
  shows "spec_user_rows_sorted df u = filter (\<lambda>j. user_id (df ! j) = Some u) [0..<length df]"
proof -
  have "map (\<lambda>j. instant (timestamp (df ! j))) [0..<length df]
          = map (\<lambda>r. instant (timestamp r)) (map (nth df) [0..<length df])"
    by (simp add: comp_def)
  also have "\<dots> = map (\<lambda>r. instant (timestamp r)) df" by (simp only: map_nth)
  finally have "sorted (map (\<lambda>j. instant (timestamp (df ! j))) [0..<length df])"
    using assms by simp
  then have "sorted (map (\<lambda>j. instant (timestamp (df ! j)))
                 (filter (\<lambda>j. user_id (df ! j) = Some u) [0..<length df]))"
    by (rule sorted_filter)
  then show ?thesis
    unfolding spec_user_rows_sorted_def by (rule sort_key_id_if_sorted)
qed

lemma takeWhile_filter_upt:
  assumes "i < n" and "P i"
  shows "takeWhile (\<lambda>j. j \<noteq> i) (filter P [0..<n]) = filter P [0..<i]"
proof -
  have "[0..<n] = [0..<i] @ i # [Suc i..<n]"
    using assms(1) by (metis less_imp_le_nat upt_add_eq_append upt_conv_Cons le_add_diff_inverse plus_nat.add_0 zero_le)
  then have "filter P [0..<n] = filter P [0..<i] @ i # filter P [Suc i..<n]"
    using assms(2) by simp
  moreover have "takeWhile (\<lambda>j. j \<noteq> i) (filter P [0..<i] @ i # filter P [Suc i..<n])
                   = filter P [0..<i] @ takeWhile (\<lambda>j. j \<noteq> i) (i # filter P [Suc i..<n])"
    by (rule takeWhile_append2) simp
  ultimately show ?thesis by simp
qed

lemma spec_rapid_sorted_input:
  assumes "rapid_transactions_flag df (groupby_shift Map.empty df) = Inr rapid" and "i < length df"
    and "sorted (map (\<lambda>r. instant (timestamp r)) df)"
  shows "rapid ! i = spec_rapid df i"
proof (cases "user_id (df ! i)")
  case None
  then show ?thesis
    using rapid_nth[OF assms(1,2)] by (simp add: spec_rapid_def spec_sorted_predecessor_def)
next
  case (Some u)
  have "takeWhile (\<lambda>j. j \<noteq> i) (spec_user_rows_sorted df u)
          = filter (\<lambda>j. user_id (df ! j) = Some u) [0..<i]"
    unfolding spec_user_rows_sorted_id[OF assms(3)]
    using assms(2) Some by (rule takeWhile_filter_upt)
  then show ?thesis
    using rapid_nth[OF assms(1,2)] Some
    by (simp add: spec_rapid_def spec_sorted_predecessor_def split: list.splits)
qed

lemma rapid_input_order:
  assumes "rapid_transactions_flag df (groupby_shift Map.empty df) = Inr rapid" and "i < length df"
  shows "rapid ! i \<longleftrightarrow>
           (\<exists>j<i. \<exists>a b. user_id (df ! i) \<noteq> None \<and> user_id (df ! j) = user_id (df ! i)
              \<and> (\<forall>k. j < k \<and> k < i \<longrightarrow> user_id (df ! k) \<noteq> user_id (df ! i))
              \<and> timestamp (df ! i) = TsTime a \<and> timestamp (df ! j) = TsTime b
              \<and> real_of_int (a - b) / 1000000000 < 60)" (is "?L \<longleftrightarrow> ?R")
proof (cases "user_id (df ! i)")
  case None
  then show ?thesis using rapid_nth[OF assms] by simp
next
  case (Some u)
  let ?P = "\<lambda>j. user_id (df ! j) = Some u"
  let ?js = "filter ?P [0..<i]"
  show ?thesis
  proof (cases "?js = []")
    case True
    then have "\<forall>j<i. \<not> ?P j" by (simp add: filter_empty_conv)
    then have "\<not> ?R" using Some by auto
    moreover have "\<not> ?L" using rapid_nth[OF assms] Some True by simp
    ultimately show ?thesis by blast
  next
    case False
    let ?l = "last ?js"
    note L = last_filter_upt[OF False]
    have rl: "?L \<longleftrightarrow> (case sub_ts (timestamp (df ! i)) (timestamp (df ! ?l)) of
                      None \<Rightarrow> False | Some d \<Rightarrow> real_of_int d / 1000000000 < 60)"
      using rapid_nth[OF assms] Some False by (simp split: list.splits)
    show ?thesis
    proof
      assume ?L
      with rl obtain d where d: "sub_ts (timestamp (df ! i)) (timestamp (df ! ?l)) = Some d"
        and lt: "real_of_int d / 1000000000 < 60"
        by (auto split: option.splits)
      from d obtain a b where ta: "timestamp (df ! i) = TsTime a"
        and tb: "timestamp (df ! ?l) = TsTime b" and dab: "d = a - b"
        by (auto simp: sub_ts_Some_iff)
      from L have l1: "?l < i" and l2: "?P ?l" and l3: "\<forall>k. ?l < k \<and> k < i \<longrightarrow> \<not> ?P k"
        by blast+
      have c1: "user_id (df ! i) \<noteq> None" by (simp add: Some)
      have c2: "user_id (df ! ?l) = user_id (df ! i)" using l2 by (simp add: Some)
      have c3: "\<forall>k. ?l < k \<and> k < i \<longrightarrow> user_id (df ! k) \<noteq> user_id (df ! i)"
        unfolding Some by (rule l3)
      have c4: "real_of_int (a - b) / 1000000000 < 60" using lt unfolding dab .
      from l1 c1 c2 c3 ta tb c4 show ?R by blast
    next
      assume ?R
      then obtain j a b where ji: "j < i"
        and r2: "user_id (df ! j) = user_id (df ! i)"
        and r3: "\<forall>k. j < k \<and> k < i \<longrightarrow> user_id (df ! k) \<noteq> user_id (df ! i)"
        and ta: "timestamp (df ! i) = TsTime a" and tb: "timestamp (df ! j) = TsTime b"
        and r6: "real_of_int (a - b) / 1000000000 < 60"
        by blast
      have j2: "?P j" using r2 by (simp add: Some)
      have j3: "\<forall>k. j < k \<and> k < i \<longrightarrow> \<not> ?P k" using r3 unfolding Some .
      from last_filter_upt_unique[OF ji j2 j3] have "?l = j" by blast
      then have "sub_ts (timestamp (df ! i)) (timestamp (df ! ?l)) = Some (a - b)"
        by (simp add: ta tb)
      then show ?L unfolding rl using r6 by simp
    qed
  qed
qed

subsection \<open>Deduplication, conversion and the shape of the Cleaner's output\<close>

lemma upt_Suc_shift: "[0..<Suc n] = 0 # map Suc [0..<n]"
  by (simp add: upt_conv_Cons map_Suc_upt del: upt_Suc)

lemma first_occurrence_0: "first_occurrence df 0"
  by (simp add: first_occurrence_def)

lemma first_occurrence_Suc:
  "first_occurrence (r # rs) (Suc i) \<longleftrightarrow>
     transaction_id r \<noteq> transaction_id (rs ! i) \<and> first_occurrence rs i"
proof -
  have "(\<forall>j<Suc i. transaction_id ((r # rs) ! j) \<noteq> transaction_id (rs ! i)) \<longleftrightarrow>
        (transaction_id ((r # rs) ! 0) \<noteq> transaction_id (rs ! i)
         \<and> (\<forall>j<i. transaction_id ((r # rs) ! Suc j) \<noteq> transaction_id (rs ! i)))"
    by (rule All_less_Suc2)
  then show ?thesis by (simp add: first_occurrence_def)
qed

lemma drop_duplicates_seen_index:
  "drop_duplicates_seen seen xs =
     map (nth xs) (filter (\<lambda>i. transaction_id (xs ! i) \<notin> set seen \<and> first_occurrence xs i)
                     [0..<length xs])"
proof (induction xs arbitrary: seen)
  case Nil
  show ?case by simp
next
  case (Cons r rs)
  let ?Q = "\<lambda>s i. transaction_id (rs ! i) \<notin> set s \<and> first_occurrence rs i"
  have shift: "filter (\<lambda>i. transaction_id ((r # rs) ! i) \<notin> set seen \<and> first_occurrence (r # rs) i)
                 [0..<length (r # rs)]
             = (if transaction_id r \<notin> set seen then [0] else [])
               @ map Suc (filter (\<lambda>i. transaction_id (rs ! i) \<notin> set seen
                             \<and> transaction_id r \<noteq> transaction_id (rs ! i)
                             \<and> first_occurrence rs i) [0..<length rs])"
    by (simp add: upt_Suc_shift filter_map comp_def first_occurrence_0 first_occurrence_Suc
        del: upt_Suc)
  show ?case
  proof (cases "transaction_id r \<in> set seen")
    case True
    have "filter (\<lambda>i. transaction_id (rs ! i) \<notin> set seen
                             \<and> transaction_id r \<noteq> transaction_id (rs ! i)
                             \<and> first_occurrence rs i) [0..<length rs]
          = filter (?Q seen) [0..<length rs]"
      using True by (intro filter_cong refl) auto
    then show ?thesis
      using True by (simp only: shift drop_duplicates_seen.simps Cons.IH) (simp add: comp_def)
  next
    case False
    have "filter (\<lambda>i. transaction_id (rs ! i) \<notin> set seen
                             \<and> transaction_id r \<noteq> transaction_id (rs ! i)
                             \<and> first_occurrence rs i) [0..<length rs]
          = filter (?Q (transaction_id r # seen)) [0..<length rs]"
      by (intro filter_cong refl) auto
    then show ?thesis
      using False by (simp only: shift drop_duplicates_seen.simps Cons.IH) (simp add: comp_def)
  qed
qed

lemma drop_duplicates_index:
  "drop_duplicates df = map (nth df) (filter (first_occurrence df) [0..<length df])"
  by (simp add: drop_duplicates_def drop_duplicates_seen_index)

lemma drop_duplicates_seen_distinct:
  "distinct (map transaction_id (drop_duplicates_seen seen xs))
   \<and> set (map transaction_id (drop_duplicates_seen seen xs)) \<inter> set seen = {}"
proof (induction xs arbitrary: seen)
  case Nil
  show ?case by simp
next
  case (Cons r rs)
  show ?case
  proof (cases "transaction_id r \<in> set seen")
    case True
    then show ?thesis using Cons.IH[of seen] by simp
  next
    case False
    from Cons.IH[of "transaction_id r # seen"]
    have d: "distinct (map transaction_id (drop_duplicates_seen (transaction_id r # seen) rs))"
      and i: "set (map transaction_id (drop_duplicates_seen (transaction_id r # seen) rs))
                \<inter> set (transaction_id r # seen) = {}"
      by blast+
    from i have "transaction_id r \<notin> set (map transaction_id (drop_duplicates_seen (transaction_id r # seen) rs))"
      and "set (map transaction_id (drop_duplicates_seen (transaction_id r # seen) rs)) \<inter> set seen = {}"
      by auto
    with d False show ?thesis by simp
  qed
qed

lemma drop_duplicates_seen_id:
  "distinct (map transaction_id xs) \<Longrightarrow> set (map transaction_id xs) \<inter> set seen = {}
   \<Longrightarrow> drop_duplicates_seen seen xs = xs"
proof (induction xs arbitrary: seen)
  case Nil
  show ?case by simp
next
  case (Cons r rs)
  from Cons.prems have a: "transaction_id r \<notin> set seen"
    and b: "distinct (map transaction_id rs)"
    and c: "set (map transaction_id rs) \<inter> set (transaction_id r # seen) = {}"
    by auto
  from Cons.IH[OF b c] a show ?case by simp
qed

lemma to_datetime_Inr:
  "to_datetime parse cs = Inr ds \<Longrightarrow>
     ds = map (parsed parse) cs \<and> (\<forall>s. TsText s \<in> set cs \<longrightarrow> parse s \<noteq> None)"
proof (induction cs arbitrary: ds)
  case Nil
  then show ?case by simp
next
  case (Cons c cs)
  from Cons.prems obtain d ds' where ds: "ds = d # ds'" and tl: "to_datetime parse cs = Inr ds'"
    and hd: "(case c of TsNull \<Rightarrow> Inr TsNull | TsTime t \<Rightarrow> Inr (TsTime t)
             | TsText s \<Rightarrow> (case parse s of None \<Rightarrow> Inl (DateParseError s) | Some t \<Rightarrow> Inr (TsTime t)))
            = (Inr d :: error + ts_cell)"
    by (auto split: sum.splits)
  from hd have "d = parsed parse c \<and> (\<forall>s. c = TsText s \<longrightarrow> parse s \<noteq> None)"
    by (cases c) (auto simp: parsed_def split: option.splits)
  with Cons.IH[OF tl] ds show ?case by auto
qed



lemma set_timestamp_map:
  "set_timestamp df (map f (map timestamp df)) = map (\<lambda>r. r\<lparr>timestamp := f (timestamp r)\<rparr>) df"
  by (induction df) (simp_all add: set_timestamp_def)

lemma clean_data_Inr:
  assumes "clean_data parse df = Inr out"
  shows "out = map (cleaned parse)
                 (filter (\<lambda>r. \<not> has_null (r\<lparr>timestamp := parsed parse (timestamp r)\<rparr>))
                    (drop_duplicates df))"
    and "\<forall>s. TsText s \<in> set (map timestamp (drop_duplicates df)) \<longrightarrow> parse s \<noteq> None"
proof -
  from assms obtain col where col: "to_datetime parse (map timestamp (drop_duplicates df)) = Inr col"
    and out: "out = merchant_replace (merchant_strip (dropna (set_timestamp (drop_duplicates df) col)))"
    by (auto simp: clean_data_def Let_def split: sum.splits)
  from to_datetime_Inr[OF col]
  have c: "col = map (parsed parse) (map timestamp (drop_duplicates df))"
    and ok: "\<forall>s. TsText s \<in> set (map timestamp (drop_duplicates df)) \<longrightarrow> parse s \<noteq> None"
    by blast+
  show "\<forall>s. TsText s \<in> set (map timestamp (drop_duplicates df)) \<longrightarrow> parse s \<noteq> None" by (rule ok)
  show "out = map (cleaned parse)
                 (filter (\<lambda>r. \<not> has_null (r\<lparr>timestamp := parsed parse (timestamp r)\<rparr>))
                    (drop_duplicates df))"
    unfolding out c set_timestamp_map
    by (simp add: merchant_replace_def merchant_strip_def dropna_def filter_map comp_def
        cleaned_def option.map_comp)
qed

lemma has_null_cleaned:
  "has_null (cleaned parse r) \<longleftrightarrow> has_null (r\<lparr>timestamp := parsed parse (timestamp r)\<rparr>)"
  by (simp add: has_null_def cleaned_def)

lemma transaction_id_cleaned: "transaction_id (cleaned parse r) = transaction_id r"
  by (simp add: cleaned_def)

subsection \<open>Cleaning a frame that is already clean\<close>

lemma str_strip_subset: "set (str_strip s) \<subseteq> set s"
proof
  fix c assume "c \<in> set (str_strip s)"
  then have "c \<in> set (dropWhile is_space (rev (dropWhile is_space s)))"
    by (simp add: str_strip_def)
  then have "c \<in> set (rev (dropWhile is_space s))" by (rule set_dropWhileD)
  then have "c \<in> set (dropWhile is_space s)" by simp
  then show "c \<in> set s" by (rule set_dropWhileD)
qed

lemma str_strip_idem: "str_strip (str_strip s) = str_strip s"
proof -
  let ?t = "dropWhile is_space s"
  let ?v = "dropWhile is_space (rev ?t)"
  have u: "str_strip s = rev ?v" by (simp add: str_strip_def)
  have "dropWhile is_space (rev ?v) = rev ?v"
  proof (cases "?v = []")
    case True
    show ?thesis unfolding True by simp
  next
    case False
    have "rev ?t = takeWhile is_space (rev ?t) @ ?v" by simp
    then have "?t = rev ?v @ rev (takeWhile is_space (rev ?t))"
      by (metis rev_append rev_rev_ident)
    with False have h: "hd (rev ?v) = hd ?t" by (metis hd_append2 rev_is_Nil_conv)
    have "?t \<noteq> []"
    proof
      assume "?t = []"
      then have "?v = []" by (simp only: rev.simps(1) dropWhile.simps(1))
      with False show False by (rule notE)
    qed
    then have "\<not> is_space (hd ?t)" by (rule hd_dropWhile)
    with h show ?thesis by (simp add: dropWhile_eq_self_iff)
  qed
  then have "str_strip (rev ?v) = rev (dropWhile is_space (rev (rev ?v)))"
    by (simp add: str_strip_def)
  then show ?thesis unfolding u by simp
qed

lemma str_replace_special_id:
  "\<forall>c\<in>set m. is_word c \<or> is_space c \<Longrightarrow> str_replace_special m = m"
  by (simp add: str_replace_special_def filter_id_conv)

lemma to_datetime_instants:
  "\<forall>c\<in>set cs. \<exists>t. c = TsTime t \<Longrightarrow> to_datetime parse cs = Inr cs"
proof (induction cs)
  case Nil
  show ?case by simp
next
  case (Cons c cs)
  then obtain t where "c = TsTime t" by auto
  with Cons show ?case by simp
qed

lemma set_timestamp_same: "set_timestamp df (map timestamp df) = df"
  by (induction df) (simp_all add: set_timestamp_def)

lemma clean_data_canonical:
  assumes "canonical xs"
  shows "clean_data parse xs = Inr (merchant_strip xs)"
proof -
  from assms have d: "distinct (map transaction_id xs)"
    and n: "\<forall>r\<in>set xs. \<not> has_null r"
    and t: "\<forall>c\<in>set (map timestamp xs). \<exists>t. c = TsTime t"
    and w: "\<forall>r\<in>set xs. \<forall>m. merchant r = Some m \<longrightarrow> (\<forall>c\<in>set m. is_word c \<or> is_space c)"
    by (auto simp: canonical_def)
  have 1: "drop_duplicates xs = xs"
    using d by (simp add: drop_duplicates_def drop_duplicates_seen_id)
  have 2: "to_datetime parse (map timestamp xs) = Inr (map timestamp xs)"
    using t by (rule to_datetime_instants)
  have 3: "dropna xs = xs" using n by (simp add: dropna_def filter_id_conv)
  have 4: "merchant_replace (merchant_strip xs) = merchant_strip xs"
  proof -
    have "map_option str_replace_special (map_option str_strip (merchant r)) = map_option str_strip (merchant r)"
      if "r \<in> set xs" for r
    proof (cases "merchant r")
      case None
      then show ?thesis by simp
    next
      case (Some m)
      with w that have "\<forall>c\<in>set m. is_word c \<or> is_space c" by blast
      with str_strip_subset[of m] have "\<forall>c\<in>set (str_strip m). is_word c \<or> is_space c" by blast
      then show ?thesis using Some by (simp add: str_replace_special_id)
    qed
    then show ?thesis
      by (simp add: merchant_replace_def merchant_strip_def)
  qed
  show ?thesis
    by (simp add: clean_data_def 1 2 3 4 set_timestamp_same)
qed

lemma clean_data_output_canonical:
  assumes "clean_data parse df = Inr out"
  shows "canonical out"
proof -
  let ?Q = "\<lambda>r. \<not> has_null (r\<lparr>timestamp := parsed parse (timestamp r)\<rparr>)"
  note out = clean_data_Inr(1)[OF assms]
  note ok = clean_data_Inr(2)[OF assms]
  have "distinct (map transaction_id (drop_duplicates df))"
    using drop_duplicates_seen_distinct[of "[]" df] by (simp add: drop_duplicates_def)
  then have "distinct (map transaction_id (filter ?Q (drop_duplicates df)))"
    by (rule distinct_map_filter)
  then have d: "distinct (map transaction_id out)"
    unfolding out by (simp add: comp_def transaction_id_cleaned)
  have r: "\<not> has_null (cleaned parse r) \<and> (\<exists>t. timestamp (cleaned parse r) = TsTime t)
           \<and> (\<forall>m. merchant (cleaned parse r) = Some m \<longrightarrow> (\<forall>c\<in>set m. is_word c \<or> is_space c))"
    if "r \<in> set (drop_duplicates df)" and "?Q r" for r
  proof (intro conjI)
    show "\<not> has_null (cleaned parse r)" using that(2) by (simp add: has_null_cleaned)
    from that(2) have nn: "parsed parse (timestamp r) \<noteq> TsNull" by (simp add: has_null_def)
    show "\<exists>t. timestamp (cleaned parse r) = TsTime t"
    proof (cases "timestamp r")
      case TsNull
      with nn show ?thesis by (simp add: parsed_def)
    next
      case (TsText s)
      with that(1) ok have "parse s \<noteq> None" by force
      with TsText show ?thesis by (auto simp: cleaned_def parsed_def)
    next
      case (TsTime t)
      then show ?thesis by (simp add: cleaned_def parsed_def)
    qed
    show "\<forall>m. merchant (cleaned parse r) = Some m \<longrightarrow> (\<forall>c\<in>set m. is_word c \<or> is_space c)"
      by (auto simp: cleaned_def str_replace_special_def)
  qed
  show ?thesis
    unfolding canonical_def using d r by (auto simp: out)
qed

lemma canonical_merchant_strip:
  assumes "canonical xs"
  shows "canonical (merchant_strip xs)"
proof -
  have ids: "map transaction_id (merchant_strip xs) = map transaction_id xs"
    by (simp add: merchant_strip_def comp_def)
  have mem: "set (merchant_strip xs) = (\<lambda>r. r\<lparr>merchant := map_option str_strip (merchant r)\<rparr>) ` set xs"
    by (simp add: merchant_strip_def)
  have rows: "\<not> has_null (r\<lparr>merchant := map_option str_strip (merchant r)\<rparr>)
      \<and> (\<exists>t. timestamp (r\<lparr>merchant := map_option str_strip (merchant r)\<rparr>) = TsTime t)
      \<and> (\<forall>m. merchant (r\<lparr>merchant := map_option str_strip (merchant r)\<rparr>) = Some m
            \<longrightarrow> (\<forall>c\<in>set m. is_word c \<or> is_space c))"
    if "r \<in> set xs" for r
  proof -
    from assms that have a: "\<not> has_null r" and b: "\<exists>t. timestamp r = TsTime t"
      and c: "\<forall>m. merchant r = Some m \<longrightarrow> (\<forall>c\<in>set m. is_word c \<or> is_space c)"
      by (auto simp: canonical_def)
    from c str_strip_subset have "\<forall>m. merchant r = Some m \<longrightarrow> (\<forall>c\<in>set (str_strip m). is_word c \<or> is_space c)"
      by blast
    with a b show ?thesis by (auto simp: has_null_def)
  qed
  from assms have "distinct (map transaction_id xs)" by (simp add: canonical_def)
  with rows show ?thesis
    unfolding canonical_def ids mem by blast
qed

lemma merchant_strip_idem: "merchant_strip (merchant_strip xs) = merchant_strip xs"
  by (simp add: merchant_strip_def comp_def option.map_comp str_strip_idem)

subsection \<open>The search for a keyword\<close>



subsection \<open>Combining the rule columns\<close>

lemma or3_nth:
  "i < length xs \<Longrightarrow> length ys = length xs \<Longrightarrow> length zs = length xs \<Longrightarrow>
   or3 xs ys zs ! i = (xs ! i \<or> ys ! i \<or> zs ! i)"
  by (simp add: or3_def)

lemma add3_nth:
  "i < length xs \<Longrightarrow> length ys = length xs \<Longrightarrow> length zs = length xs \<Longrightarrow>
   add3 xs ys zs ! i = astype_int (xs ! i) + astype_int (ys ! i) + astype_int (zs ! i)"
  by (simp add: add3_def)

lemma length_or3: "length ys = length xs \<Longrightarrow> length zs = length xs \<Longrightarrow> length (or3 xs ys zs) = length xs"
  by (simp add: or3_def)

lemma length_add3: "length ys = length xs \<Longrightarrow> length zs = length xs \<Longrightarrow> length (add3 xs ys zs) = length xs"
  by (simp add: add3_def)

lemma length_high_amount_flag: "length (high_amount_flag df) = length df"
  by (simp add: high_amount_flag_def amount_gt_def)

lemma length_merchant_risk_flag: "length (merchant_risk_flag df) = length df"
  by (simp add: merchant_risk_flag_def str_contains_def)

subsection \<open>Sums of boolean columns\<close>

lemma sum_bool_filter: "sum_bool (map P xs) = int (length (filter P xs))"
  by (induction xs) (simp_all add: sum_bool_def astype_int_def)

lemma sum_bool_id: "sum_bool col = int (length (filter id col))"
  using sum_bool_filter[of id col] by simp

lemma sum_bool_opt_is_fraud:
  "sum_bool_opt (map is_fraud rs) = int (length (filter (\<lambda>r. is_fraud r = Some True) rs))"
proof (induction rs)
  case Nil
  show ?case by (simp add: sum_bool_opt_def)
next
  case (Cons r rs)
  then show ?case
    by (cases "is_fraud r") (auto simp: sum_bool_opt_def astype_int_def)
qed

lemma summary_of_Inr:
  assumes "summary_of f = Inr s"
  obtains flags scores where "rule_based_fraud_flag f = Some flags" "fraud_score f = Some scores"
    "total_records s = int (length (rows f))"
    "original_fraud_flags s = int (length (filter (\<lambda>r. is_fraud r = Some True) (rows f)))"
    "rule_based_flags s = int (length (filter id flags))"
    "high_risk_transactions s = int (length (filter (\<lambda>x. x \<ge> 2) scores))"
proof -
  from assms obtain flags scores where fs: "rule_based_fraud_flag f = Some flags" "fraud_score f = Some scores"
    and s: "s = \<lparr>total_records = int (length (rows f)),
                 original_fraud_flags = sum_bool_opt (map is_fraud (rows f)),
                 rule_based_flags = sum_bool flags,
                 high_risk_transactions = sum_bool (map (\<lambda>s. s \<ge> 2) scores)\<rparr>"
    by (auto simp: summary_of_def split: option.splits)
  show ?thesis
    by (rule that[OF fs]) (simp_all add: s sum_bool_opt_is_fraud sum_bool_filter sum_bool_id)
qed

subsection \<open>The examples, evaluated\<close>

lemma example_cleaning: "clean_data sample_to_datetime example_batch = Inr example_clean"
  by code_simp

lemma example_rapid:
  "rapid_transactions_flag example_clean (groupby_shift Map.empty example_clean) = Inr [False, True]"
  by code_simp

lemma example_scoring:
  "apply_rule_based_detection [new_frame example_clean] 0 = Inr (example_heap, 2)"
  by code_simp

lemma example_sorted: "sorted (map (\<lambda>r. instant (timestamp r)) example_clean)"
  by code_simp

lemma example_pipeline:
  "run_pipeline sample_to_datetime (Inr example_batch) store_succeeds = Inr example_summary"
  by code_simp



lemma less_3_cases: "k < (3::nat) \<Longrightarrow> k = 0 \<or> k = 1 \<or> k = 2"
  by linarith

section \<open>The Cleaner\<close>

text \<open>
  Claim C7. For every input frame on which the Cleaner returns, the output is the cleaned
  form of the rows at the indices \<open>idx\<close>: the rows that are the first of their
  \<open>transaction_id\<close> in input order and have no null after conversion. Every later row
  of an identifier is discarded, the indices are strictly increasing, so the surviving
  rows keep their relative input order, and no identifier occurs twice in the output.
\<close>

theorem clean_data_first_occurrences_in_order:
  assumes "clean_data parse df = Inr out"
  shows "\<exists>idx. idx = filter (\<lambda>i. first_occurrence df i \<and> \<not> has_null (cleaned parse (df ! i)))
                        [0..<length df]
           \<and> out = map (\<lambda>i. cleaned parse (df ! i)) idx
           \<and> sorted_wrt (<) idx
           \<and> distinct (map transaction_id out)"
proof -
  let ?Q = "\<lambda>r. \<not> has_null (r\<lparr>timestamp := parsed parse (timestamp r)\<rparr>)"
  note out = clean_data_Inr(1)[OF assms]
  have "filter ?Q (drop_duplicates df)
          = map (nth df) (filter (\<lambda>i. first_occurrence df i \<and> \<not> has_null (cleaned parse (df ! i)))
                            [0..<length df])"
    by (simp add: drop_duplicates_index filter_map comp_def has_null_cleaned)
  then have 1: "out = map (\<lambda>i. cleaned parse (df ! i))
                    (filter (\<lambda>i. first_occurrence df i \<and> \<not> has_null (cleaned parse (df ! i)))
                       [0..<length df])"
    unfolding out by (simp add: comp_def)
  have 2: "sorted_wrt (<) (filter (\<lambda>i. first_occurrence df i \<and> \<not> has_null (cleaned parse (df ! i)))
                       [0..<length df])"
    by (rule sorted_wrt_filter) (rule sorted_wrt_upt)
  have "distinct (map transaction_id (drop_duplicates df))"
    using drop_duplicates_seen_distinct[of "[]" df] by (simp add: drop_duplicates_def)
  then have "distinct (map transaction_id (filter ?Q (drop_duplicates df)))"
    by (rule distinct_map_filter)
  then have 3: "distinct (map transaction_id out)"
    unfolding out by (simp add: comp_def transaction_id_cleaned)
  from 1 2 3 show ?thesis by blast
qed

theorem clean_data_first_occurrences_in_order_witness:
  "clean_data sample_to_datetime example_batch = Inr example_clean
   \<and> distinct (map transaction_id example_clean)
   \<and> (\<exists>idx. example_clean = map (\<lambda>i. cleaned sample_to_datetime (example_batch ! i)) idx
          \<and> sorted_wrt (<) idx)"
  using clean_data_first_occurrences_in_order[OF example_cleaning] example_cleaning by blast




text \<open>
  Claim C3, as amended. Applied to its own output, the Cleaner returns and keeps the rows,
  their order and every attribute except the merchant, which it strips of white space at
  both ends once more. The result equals the output row for row when no merchant of the
  output begins or ends with white space, and in every case from the second application
  on.
\<close>

theorem clean_data_twice:
  assumes "clean_data parse df = Inr out"
  shows "clean_data parse out = Inr (merchant_strip out)
       \<and> ((\<forall>r\<in>set out. \<forall>m. merchant r = Some m \<longrightarrow> str_strip m = m) \<longrightarrow> clean_data parse out = Inr out)
       \<and> clean_data parse (merchant_strip out) = Inr (merchant_strip out)"
proof -
  note c = clean_data_output_canonical[OF assms]
  have 1: "clean_data parse out = Inr (merchant_strip out)"
    using c by (rule clean_data_canonical)
  have 2: "clean_data parse out = Inr out" if "\<forall>r\<in>set out. \<forall>m. merchant r = Some m \<longrightarrow> str_strip m = m"
  proof -
    have "r\<lparr>merchant := map_option str_strip (merchant r)\<rparr> = r" if "r \<in> set out" for r
      using that \<open>\<forall>r\<in>set out. \<forall>m. merchant r = Some m \<longrightarrow> str_strip m = m\<close>
      by (cases "merchant r") auto
    then have "merchant_strip out = out" by (simp add: merchant_strip_def map_idI)
    with 1 show ?thesis by simp
  qed
  have 3: "clean_data parse (merchant_strip out) = Inr (merchant_strip out)"
    using clean_data_canonical[OF canonical_merchant_strip[OF c], of parse]
    by (simp add: merchant_strip_idem)
  from 1 2 3 show ?thesis by blast
qed

theorem clean_data_twice_witness:
  "clean_data sample_to_datetime example_batch = Inr example_clean
   \<and> clean_data sample_to_datetime example_clean = Inr example_clean"
proof -
  have s1: "str_strip ''Casino Royale'' = ''Casino Royale''" by code_simp
  have s2: "str_strip ''Coffee Shop'' = ''Coffee Shop''" by code_simp
  have "\<forall>r\<in>set example_clean. \<forall>m. merchant r = Some m \<longrightarrow> str_strip m = m"
    using s1 s2 by (auto simp: example_clean_def txn_def)
  with clean_data_twice[OF example_cleaning]
  have "clean_data sample_to_datetime example_clean = Inr example_clean" by blast
  with example_cleaning show ?thesis by blast
qed

text \<open>
  The claim as stated fails on the merchant \<open>Coffee Shop #\<close>: the first cleaning strips
  nothing and removes the \<open>#\<close>, which leaves a space at the end; the second cleaning
  strips that space.
\<close>

theorem clean_data_twice_counterexample:
  "clean_data sample_to_datetime punctuated_batch = Inr punctuated_once
   \<and> clean_data sample_to_datetime punctuated_once = Inr punctuated_twice
   \<and> punctuated_once \<noteq> punctuated_twice"
  by code_simp

section \<open>The Rule Engine\<close>

text \<open>
  Claim C5. Rule 1 holds of a row exactly when its amount is present and strictly greater
  than 1000; the amount 1000.00 does not trigger it and the amount 1000.01 does.
\<close>

theorem high_amount_flag_strict:
  assumes "i < length df"
  shows "(high_amount_flag df ! i \<longleftrightarrow> (\<exists>a. amount (df ! i) = Some a \<and> a > 1000))
       \<and> (amount (df ! i) = Some 1000 \<longrightarrow> \<not> high_amount_flag df ! i)
       \<and> (amount (df ! i) = Some (100001 / 100) \<longrightarrow> high_amount_flag df ! i)"
  using assms by (auto simp: high_amount_flag_def amount_gt_def split: option.splits)

theorem high_amount_flag_strict_witness:
  "(0::nat) < length boundary_rows \<and> (1::nat) < length boundary_rows
   \<and> amount (boundary_rows ! 0) = Some 1000 \<and> \<not> high_amount_flag boundary_rows ! 0
   \<and> amount (boundary_rows ! 1) = Some (100001 / 100) \<and> high_amount_flag boundary_rows ! 1"
proof -
  have l0: "(0::nat) < length boundary_rows" by code_simp
  have l1: "(1::nat) < length boundary_rows" by code_simp
  have a0: "amount (boundary_rows ! 0) = Some 1000" by code_simp
  have a1: "amount (boundary_rows ! 1) = Some (100001 / 100)" by code_simp
  from high_amount_flag_strict[OF l0] a0 have r0: "\<not> high_amount_flag boundary_rows ! 0"
    by blast
  from high_amount_flag_strict[OF l1] a1 have r1: "high_amount_flag boundary_rows ! 1"
    by blast
  from l0 l1 a0 a1 r0 r1 show ?thesis by blast
qed



text \<open>
  Claim C1, as amended. Rule 3 compares the timestamp of a row with the timestamp of the
  previous row of the same user in input order: the nearest earlier row with the same,
  non-null \<open>user_id\<close>. Nothing sorts the rows of a user by timestamp. The two orders
  agree, and rule 3 is the comparison with the predecessor in the timestamp-sorted
  sequence of the user, when the input frame is in ascending timestamp order.
\<close>

theorem rapid_compares_input_order_predecessor:
  assumes "rapid_transactions_flag df (groupby_shift Map.empty df) = Inr rapid" and "i < length df"
  shows "(rapid ! i \<longleftrightarrow>
           (\<exists>j<i. \<exists>a b. user_id (df ! i) \<noteq> None \<and> user_id (df ! j) = user_id (df ! i)
              \<and> (\<forall>k. j < k \<and> k < i \<longrightarrow> user_id (df ! k) \<noteq> user_id (df ! i))
              \<and> timestamp (df ! i) = TsTime a \<and> timestamp (df ! j) = TsTime b
              \<and> real_of_int (a - b) / 1000000000 < 60))
       \<and> (sorted (map (\<lambda>r. instant (timestamp r)) df) \<longrightarrow> rapid ! i = spec_rapid df i)"
  using rapid_input_order[OF assms] spec_rapid_sorted_input[OF assms] by blast

theorem rapid_compares_input_order_predecessor_witness:
  "rapid_transactions_flag example_clean (groupby_shift Map.empty example_clean)
     = Inr [False, True]
   \<and> (1::nat) < length example_clean
   \<and> sorted (map (\<lambda>r. instant (timestamp r)) example_clean)
   \<and> [False, True] ! 1 = spec_rapid example_clean 1"
proof -
  have l: "(1::nat) < length example_clean" by code_simp
  from rapid_compares_input_order_predecessor[OF example_rapid l] example_sorted
  have "[False, True] ! 1 = spec_rapid example_clean 1" by blast
  with example_rapid l example_sorted show ?thesis by blast
qed

text \<open>
  The claim as stated fails on one user's rows at 100 s, 0 s and 130 s, in this input
  order. The engine flags the second row (its input predecessor is 100 s later) and not
  the third (130 s after its input predecessor); in timestamp order the second row is the
  user's first and the third follows the first row by 30 s.
\<close>

theorem rapid_sorted_predecessor_counterexample:
  "rapid_transactions_flag unsorted_rows (groupby_shift Map.empty unsorted_rows)
     = Inr [False, True, False]
   \<and> \<not> spec_rapid unsorted_rows 1 \<and> spec_rapid unsorted_rows 2"
  by code_simp



text \<open>
  Claim C4. For every frame that the Rule Engine scores and every row of it,
  \<open>fraud_score\<close> is an integer between 0 and 3, it is the number of the three rules
  that hold of the row, and \<open>rule_based_fraud_flag\<close> is true exactly when the score is
  positive.
\<close>

theorem fraud_score_counts_rules:
  assumes "df < length h" and "apply_rule_based_detection h df = Inr (h', out)"
  shows "\<exists>rapid flags scores.
           rapid_transactions_flag (rows (h ! df)) (groupby_shift Map.empty (rows (h ! df))) = Inr rapid
         \<and> rule_based_fraud_flag (h' ! out) = Some flags
         \<and> fraud_score (h' ! out) = Some scores
         \<and> length flags = length (rows (h' ! out))
         \<and> length scores = length (rows (h' ! out))
         \<and> (\<forall>i<length (rows (h' ! out)).
               0 \<le> scores ! i \<and> scores ! i \<le> 3
             \<and> scores ! i = int (length (filter id
                   [high_amount_flag (rows (h ! df)) ! i, merchant_risk_flag (rows (h ! df)) ! i,
                    rapid ! i]))
             \<and> (flags ! i \<longleftrightarrow> scores ! i > 0))"
proof -
  let ?R = "rows (h ! df)"
  from assms(2) obtain rapid where
    rapid: "rapid_transactions_flag ?R (groupby_shift Map.empty ?R) = Inr rapid"
    and out: "out = Suc (length h)"
    and h': "h' ! Suc (length h) =
       \<lparr>rows = ?R, prev_transaction_time = None,
        rule_based_fraud_flag = Some (or3 (high_amount_flag ?R) (merchant_risk_flag ?R) rapid),
        fraud_score = Some (add3 (high_amount_flag ?R) (merchant_risk_flag ?R) rapid)\<rparr>"
    by (rule apply_rule_based_detection_Inr) (simp add: nth_append)
  have lr: "length rapid = length ?R"
    using rapid_transactions_flag_Inr(1)[OF rapid] by (simp add: length_groupby_shift)
  have "\<forall>i<length ?R.
          0 \<le> add3 (high_amount_flag ?R) (merchant_risk_flag ?R) rapid ! i
        \<and> add3 (high_amount_flag ?R) (merchant_risk_flag ?R) rapid ! i \<le> 3
        \<and> add3 (high_amount_flag ?R) (merchant_risk_flag ?R) rapid ! i
            = int (length (filter id [high_amount_flag ?R ! i, merchant_risk_flag ?R ! i, rapid ! i]))
        \<and> (or3 (high_amount_flag ?R) (merchant_risk_flag ?R) rapid ! i
             \<longleftrightarrow> add3 (high_amount_flag ?R) (merchant_risk_flag ?R) rapid ! i > 0)"
    by (simp add: or3_nth add3_nth lr length_high_amount_flag length_merchant_risk_flag astype_int_def)
  then show ?thesis
    using rapid out h' lr
    by (simp add: length_or3 length_add3 length_high_amount_flag length_merchant_risk_flag)
qed

theorem fraud_score_counts_rules_witness:
  "(0::nat) < length [new_frame example_clean]
   \<and> apply_rule_based_detection [new_frame example_clean] 0 = Inr (example_heap, 2)
   \<and> (\<exists>rapid flags scores.
          rule_based_fraud_flag (example_heap ! 2) = Some flags
        \<and> fraud_score (example_heap ! 2) = Some scores
        \<and> 0 \<le> scores ! 0 \<and> scores ! 0 \<le> 3
        \<and> scores ! 0 = int (length (filter id
              [high_amount_flag (rows ([new_frame example_clean] ! 0)) ! 0,
               merchant_risk_flag (rows ([new_frame example_clean] ! 0)) ! 0, rapid ! 0]))
        \<and> flags ! 0 = (scores ! 0 > 0))"
proof -
  have l: "(0::nat) < length [new_frame example_clean]" by simp
  have r: "(0::nat) < length (rows (example_heap ! 2))" by code_simp
  from fraud_score_counts_rules[OF l example_scoring] r
  have "\<exists>rapid flags scores.
          rule_based_fraud_flag (example_heap ! 2) = Some flags
        \<and> fraud_score (example_heap ! 2) = Some scores
        \<and> 0 \<le> scores ! 0 \<and> scores ! 0 \<le> 3
        \<and> scores ! 0 = int (length (filter id
              [high_amount_flag (rows ([new_frame example_clean] ! 0)) ! 0,
               merchant_risk_flag (rows ([new_frame example_clean] ! 0)) ! 0, rapid ! 0]))
        \<and> flags ! 0 = (scores ! 0 > 0)"
    by blast
  with l example_scoring show ?thesis by blast
qed

text \<open>
  Claim C10. The Rule Engine works on a copy: after scoring, every frame that existed
  before, the caller's frame among them, is unchanged, and the result is a new frame.
  The rows of the result, with their six attributes, are the rows of the input frame;
  the result has the columns \<open>rule_based_fraud_flag\<close> and \<open>fraud_score\<close> and no
  column \<open>prev_transaction_time\<close>.
\<close>

theorem rule_engine_frame:
  assumes "df < length h" and "apply_rule_based_detection h df = Inr (h', out)"
  shows "(\<forall>p<length h. h' ! p = h ! p)
       \<and> length h \<le> out \<and> out < length h'
       \<and> rows (h' ! out) = rows (h ! df)
       \<and> prev_transaction_time (h' ! out) = None
       \<and> rule_based_fraud_flag (h' ! out) \<noteq> None
       \<and> fraud_score (h' ! out) \<noteq> None"
  using assms(2) by (rule apply_rule_based_detection_Inr) (simp add: nth_append)

theorem rule_engine_frame_witness:
  "(0::nat) < length [new_frame example_clean]
   \<and> apply_rule_based_detection [new_frame example_clean] 0 = Inr (example_heap, 2)
   \<and> example_heap ! 0 = [new_frame example_clean] ! 0
   \<and> rows (example_heap ! 2) = rows ([new_frame example_clean] ! 0)
   \<and> prev_transaction_time (example_heap ! 2) = None
   \<and> rule_based_fraud_flag (example_heap ! 2) \<noteq> None
   \<and> fraud_score (example_heap ! 2) \<noteq> None"
proof -
  have l: "(0::nat) < length [new_frame example_clean]" by simp
  from rule_engine_frame[OF l example_scoring] l example_scoring show ?thesis by blast
qed

section \<open>The summary\<close>

text \<open>
  Claim C9. When the pipeline returns a summary, the frame read was cleaned and scored,
  and over the scored frame \<open>total_records\<close> is the number of rows,
  \<open>original_fraud_flags\<close> the number of rows with \<open>is_fraud\<close> true,
  \<open>rule_based_flags\<close> the number of rows with \<open>rule_based_fraud_flag\<close> true and
  \<open>high_risk_transactions\<close> the number of rows with \<open>fraud_score\<close> at least 2.
\<close>

theorem run_pipeline_summary:
  assumes "run_pipeline parse ingest_data store_in_database = Inr s"
  shows "\<exists>df df_clean h df_processed flags scores.
           ingest_data = Inr df
         \<and> clean_data parse df = Inr df_clean
         \<and> apply_rule_based_detection [new_frame df_clean] 0 = Inr (h, df_processed)
         \<and> rule_based_fraud_flag (h ! df_processed) = Some flags
         \<and> fraud_score (h ! df_processed) = Some scores
         \<and> total_records s = int (length (rows (h ! df_processed)))
         \<and> original_fraud_flags s
             = int (length (filter (\<lambda>r. is_fraud r = Some True) (rows (h ! df_processed))))
         \<and> rule_based_flags s = int (length (filter id flags))
         \<and> high_risk_transactions s = int (length (filter (\<lambda>x. x \<ge> 2) scores))"
proof -
  from assms obtain df df_clean h p where 1: "ingest_data = Inr df"
    and 2: "clean_data parse df = Inr df_clean"
    and 3: "apply_rule_based_detection [new_frame df_clean] 0 = Inr (h, p)"
    and 4: "summary_of (h ! p) = Inr s"
    by (auto simp: run_pipeline_def split: sum.splits option.splits)
  from 4 show ?thesis
  proof (rule summary_of_Inr)
    fix flags scores
    assume "rule_based_fraud_flag (h ! p) = Some flags" "fraud_score (h ! p) = Some scores"
      "total_records s = int (length (rows (h ! p)))"
      "original_fraud_flags s = int (length (filter (\<lambda>r. is_fraud r = Some True) (rows (h ! p))))"
      "rule_based_flags s = int (length (filter id flags))"
      "high_risk_transactions s = int (length (filter (\<lambda>x. x \<ge> 2) scores))"
    with 1 2 3 show ?thesis by blast
  qed
qed

theorem run_pipeline_summary_witness:
  "run_pipeline sample_to_datetime (Inr example_batch) store_succeeds = Inr example_summary
   \<and> (\<exists>h df_processed flags scores.
          apply_rule_based_detection [new_frame example_clean] 0 = Inr (h, df_processed)
        \<and> rule_based_fraud_flag (h ! df_processed) = Some flags
        \<and> fraud_score (h ! df_processed) = Some scores
        \<and> total_records example_summary = int (length (rows (h ! df_processed)))
        \<and> original_fraud_flags example_summary
            = int (length (filter (\<lambda>r. is_fraud r = Some True) (rows (h ! df_processed))))
        \<and> rule_based_flags example_summary = int (length (filter id flags))
        \<and> high_risk_transactions example_summary = int (length (filter (\<lambda>x. x \<ge> 2) scores)))"
proof -
  from run_pipeline_summary[OF example_pipeline] obtain df df_clean h p flags scores where
    "(Inr example_batch :: error + transaction list) = Inr df"
    "clean_data sample_to_datetime df = Inr df_clean"
    and rest: "apply_rule_based_detection [new_frame df_clean] 0 = Inr (h, p)"
    "rule_based_fraud_flag (h ! p) = Some flags"
    "fraud_score (h ! p) = Some scores"
    "total_records example_summary = int (length (rows (h ! p)))"
    "original_fraud_flags example_summary
       = int (length (filter (\<lambda>r. is_fraud r = Some True) (rows (h ! p))))"
    "rule_based_flags example_summary = int (length (filter id flags))"
    "high_risk_transactions example_summary = int (length (filter (\<lambda>x. x \<ge> 2) scores))"
    by blast
  then have "df_clean = example_clean" using example_cleaning by simp
  with rest example_pipeline show ?thesis by blast
qed

end
